theory Spec2Isabelle
  imports Main
begin

section \<open>Node model (asdl.py, lines 48-142)\<close>

text \<open>
  The meta-AST of asdl.py. Text is modelled as ASCII: a \<open>string\<close> is a list of 8-bit
  characters and the character classes below follow Python on code points below 128.
\<close>

datatype Field = Field (f_type: string) (f_name: "string option") (f_seq: bool) (f_opt: bool)

datatype Constructor = Constructor (c_name: string) (c_fields: "Field list")

datatype Value =
    Sum (s_types: "Constructor list") (s_attributes: "Field list")
  | Product (p_fields: "Field list") (p_attributes: "Field list")

datatype Type = Type (t_name: string) (t_value: Value)

record Module =
  m_name :: string
  dfns :: "Type list"
  types :: "string \<rightharpoonup> Value"

text \<open>\<open>Module.__init__\<close>: the dict comprehension inserts the definitions in order, so a
  later definition of a name overwrites an earlier one.\<close>

definition mk_types :: "Type list \<Rightarrow> (string \<rightharpoonup> Value)" where
  "mk_types ds = fold (\<lambda>t m. m(t_name t \<mapsto> t_value t)) ds Map.empty"

definition mk_Module :: "string \<Rightarrow> Type list \<Rightarrow> Module" where
  "mk_Module n ds = \<lparr>m_name = n, dfns = ds, types = mk_types ds\<rparr>"

text \<open>\<open>Constructor(name, fields or [])\<close>, \<open>Sum(types, attributes or [])\<close>,
  \<open>Product(fields, attributes or [])\<close>: a missing list is the empty list.\<close>

definition or_empty :: "'a list option \<Rightarrow> 'a list" where
  "or_empty x = (case x of None \<Rightarrow> [] | Some xs \<Rightarrow> xs)"

definition builtin_types :: "string list" where
  "builtin_types = [''identifier'', ''string'', ''int'', ''constant'', ''bool'', ''conversion_flag'']"

section \<open>Tokens and errors (lines 245-284)\<close>

datatype TokenKind =
  ConstructorId | TypeId | Equals | Comma | Question | Pipe | Asterisk
  | LParen | RParen | LBrace | RBrace

datatype Token = Token (tok_kind: TokenKind) (tok_value: string) (tok_lineno: nat)

text \<open>The three message formats of \<open>ASDLSyntaxError\<close>, kept structured: the invalid
  lexeme, the value found instead of \<open>module\<close>, the expected kinds and the kind found.\<close>

datatype msg =
    InvalidOperator string
  | ExpectedModule string
  | Unmatched "TokenKind list" TokenKind

text \<open>Every exception the tokenizer and the parser can raise. \<open>AttributeError\<close> is
  \<open>self.cur_token.kind\<close> on \<open>cur_token = None\<close> (end of input); \<open>TypeError\<close> is
  the subscript of an Enum member; \<open>IndexError\<close> is \<open>c[0]\<close> on an empty lexeme.\<close>

datatype error =
    ASDLSyntaxError msg nat
  | KeyError
  | TypeError
  | AttributeError
  | IndexError

section \<open>Tokenizer (lines 287-307)\<close>

definition is_space :: "char \<Rightarrow> bool" where
  "is_space c = (let n = (of_char c :: nat) in (9 \<le> n \<and> n \<le> 13) \<or> (28 \<le> n \<and> n \<le> 32))"

definition is_linebreak :: "char \<Rightarrow> bool" where
  "is_linebreak c = (let n = (of_char c :: nat) in (10 \<le> n \<and> n \<le> 13) \<or> (28 \<le> n \<and> n \<le> 30))"

definition is_upper :: "char \<Rightarrow> bool" where
  "is_upper c = (let n = (of_char c :: nat) in 65 \<le> n \<and> n \<le> 90)"

definition is_alpha :: "char \<Rightarrow> bool" where
  "is_alpha c = (let n = (of_char c :: nat) in (65 \<le> n \<and> n \<le> 90) \<or> (97 \<le> n \<and> n \<le> 122))"

definition is_word :: "char \<Rightarrow> bool" where
  "is_word c = (let n = (of_char c :: nat) in
     (65 \<le> n \<and> n \<le> 90) \<or> (97 \<le> n \<and> n \<le> 122) \<or> (48 \<le> n \<and> n \<le> 57) \<or> n = 95)"

text \<open>\<open>str.splitlines()\<close>: a line ends at a line boundary (\<open>\r\n\<close> counts once); the
  text after the last boundary is a line only when it is not empty.\<close>

fun splitlines_from :: "string \<Rightarrow> string \<Rightarrow> string list" where
  "splitlines_from cur [] = (if cur = [] then [] else [cur])"
| "splitlines_from cur [c] =
     (if is_linebreak c then [cur] else [cur @ [c]])"
| "splitlines_from cur (c # d # cs) =
     (if of_char c = (13::nat) \<and> of_char d = (10::nat) then cur # splitlines_from [] cs
      else if is_linebreak c then cur # splitlines_from [] (d # cs)
      else splitlines_from (cur @ [c]) (d # cs))"

definition splitlines :: "string \<Rightarrow> string list" where
  "splitlines buf = splitlines_from [] buf"

definition strip :: "string \<Rightarrow> string" where
  "strip s = rev (dropWhile is_space (rev (dropWhile is_space s)))"

text \<open>\<open>re.finditer(r'\s*(\w+|--.*|.)', line)\<close>, as the list of the group-1 lexemes.
  After the skipped white space comes a maximal word, or \<open>--\<close> with the rest of the
  line, or one character. When only white space is left, the regex backtracks and the
  last white-space character is the lexeme.\<close>

function finditer :: "string \<Rightarrow> string list" where
  "finditer s =
     (case dropWhile is_space s of
        [] \<Rightarrow> (if s = [] then [] else [[last s]])
      | c # cs \<Rightarrow>
          if is_word c then (c # takeWhile is_word cs) # finditer (dropWhile is_word cs)
          else if c = CHR ''-'' \<and> (case cs of [] \<Rightarrow> False | d # _ \<Rightarrow> d = CHR ''-'') then [c # cs]
          else [c] # finditer cs)"
  by pat_completeness auto
termination
proof (relation "measure length")
  show "wf (measure length)" by simp
next
  fix s :: string and c cs
  assume a: "dropWhile is_space s = c # cs"
  have "length (dropWhile is_word cs) \<le> length cs" by (rule length_dropWhile_le)
  moreover have "length (c # cs) \<le> length s" using a length_dropWhile_le [of is_space s] by simp
  ultimately show "(dropWhile is_word cs, s) \<in> measure length" by simp
next
  fix s :: string and c cs
  assume a: "dropWhile is_space s = c # cs"
  have "length (c # cs) \<le> length s" using a length_dropWhile_le [of is_space s] by simp
  then show "(cs, s) \<in> measure length" by simp
qed

declare finditer.simps [simp del]

text \<open>
  \<open>TokenKind\<close> is declared \<open>class TokenKind(Enum)\<close> and \<open>operator_table\<close> is assigned
  in its class body. A plain (non-descriptor) value assigned in the body of an Enum class
  becomes a member of the enumeration, so \<open>TokenKind.operator_table\<close> is the Enum member
  whose value is the dict; and inside the class body \<open>Equals\<close>, \<open>Comma\<close>, ... still
  name the integers 2, 3, ..., which are what the dict holds. Enum members are not
  subscriptable: \<open>TokenKind.operator_table[c]\<close> raises \<open>TypeError\<close> for every \<open>c\<close>,
  which the \<open>except KeyError\<close> of the tokenizer does not catch.
\<close>

definition operator_table_value :: "(string \<times> nat) list" where
  "operator_table_value =
     [(''='', 2), ('','', 3), (''?'', 4), (''|'', 5), (''('', 7), ('')'', 8), (''*'', 6),
      (''{'', 9), (''}'', 10)]"

definition operator_table_getitem :: "string \<Rightarrow> error + TokenKind" where
  "operator_table_getitem c = Inl TypeError"

text \<open>A generator: the tokens it yields, and the exception that ends it, if any. The
  parser pulls the tokens one by one, so an exception is raised only when the parser asks
  for the token after the last one yielded.\<close>

type_synonym token_stream = "Token list \<times> error option"

definition yield :: "Token \<Rightarrow> token_stream \<Rightarrow> token_stream" where
  "yield t s = (t # fst s, snd s)"

text \<open>The inner \<open>for m in re.finditer(...)\<close> loop. A comment leaves it by
  \<open>break\<close>, which only ends the line.\<close>

fun tokenize_matches :: "nat \<Rightarrow> string list \<Rightarrow> token_stream" where
  "tokenize_matches lineno [] = ([], None)"
| "tokenize_matches lineno (c # ms) =
     (case c of
        [] \<Rightarrow> ([], Some IndexError)
      | c0 # _ \<Rightarrow>
          if is_alpha c0 then
            (if is_upper c0 then yield (Token ConstructorId c lineno) (tokenize_matches lineno ms)
             else yield (Token TypeId c lineno) (tokenize_matches lineno ms))
          else if take 2 c = ''--'' then ([], None)
          else
            (case operator_table_getitem c of
               Inl KeyError \<Rightarrow> ([], Some (ASDLSyntaxError (InvalidOperator c) lineno))
             | Inl e \<Rightarrow> ([], Some e)
             | Inr op_kind \<Rightarrow> yield (Token op_kind c lineno) (tokenize_matches lineno ms)))"

text \<open>The outer \<open>for lineno, line in enumerate(buf.splitlines(), 1)\<close> loop.\<close>

fun tokenize_lines :: "nat \<Rightarrow> string list \<Rightarrow> token_stream" where
  "tokenize_lines lineno [] = ([], None)"
| "tokenize_lines lineno (line # ls) =
     (case tokenize_matches lineno (finditer (strip line)) of
        (ts, Some e) \<Rightarrow> (ts, Some e)
      | (ts, None) \<Rightarrow> (ts @ fst (tokenize_lines (Suc lineno) ls), snd (tokenize_lines (Suc lineno) ls)))"

definition tokenize_asdl :: "string \<Rightarrow> token_stream" where
  "tokenize_asdl buf = tokenize_lines 1 (splitlines buf)"

section \<open>Parser (lines 310-447)\<close>

text \<open>The parser object: the current token (\<open>None\<close> at the end of the input) and
  what the tokenizer has not produced yet.\<close>

record parser =
  cur_token :: "Token option"
  tokenizer :: token_stream

definition psize :: "parser \<Rightarrow> nat" where
  "psize p = length (fst (tokenizer p)) + (case cur_token p of None \<Rightarrow> 0 | Some _ \<Rightarrow> 1)"

text \<open>\<open>_advance\<close>: returns the value of the current token and reads the next one;
  \<open>StopIteration\<close> sets \<open>cur_token = None\<close>, any other exception of the tokenizer
  propagates.\<close>

definition advance :: "parser \<Rightarrow> error + (string option \<times> parser)" where
  "advance p =
     (let cur_val = map_option tok_value (cur_token p) in
      case tokenizer p of
        (t # ts, e) \<Rightarrow> Inr (cur_val, \<lparr>cur_token = Some t, tokenizer = (ts, e)\<rparr>)
      | ([], Some e) \<Rightarrow> Inl e
      | ([], None) \<Rightarrow> Inr (cur_val, \<lparr>cur_token = None, tokenizer = ([], None)\<rparr>))"

definition id_kinds :: "TokenKind list" where
  "id_kinds = [ConstructorId, TypeId]"

text \<open>\<open>_match\<close>: a single kind is passed as a one-element list.\<close>

definition match_kind :: "TokenKind list \<Rightarrow> parser \<Rightarrow> error + (string \<times> parser)" where
  "match_kind kinds p =
     (case cur_token p of
        None \<Rightarrow> Inl AttributeError
      | Some t \<Rightarrow>
          if tok_kind t \<in> set kinds then
            (case advance p of Inl e \<Rightarrow> Inl e | Inr (_, p') \<Rightarrow> Inr (tok_value t, p'))
          else Inl (ASDLSyntaxError (Unmatched kinds (tok_kind t)) (tok_lineno t)))"

definition at_keyword :: "string \<Rightarrow> parser \<Rightarrow> error + bool" where
  "at_keyword keyword p =
     (case cur_token p of
        None \<Rightarrow> Inl AttributeError
      | Some t \<Rightarrow> Inr (tok_kind t = TypeId \<and> tok_value t = keyword))"

text \<open>\<open>_parse_optional_field_quantifier\<close>: returns \<open>(is_seq, is_opt)\<close>.\<close>

definition parse_optional_field_quantifier :: "parser \<Rightarrow> error + ((bool \<times> bool) \<times> parser)" where
  "parse_optional_field_quantifier p =
     (case cur_token p of
        None \<Rightarrow> Inl AttributeError
      | Some t \<Rightarrow>
          (case (if tok_kind t = Question
                 then (case advance p of Inl e \<Rightarrow> Inl e | Inr (_, p1) \<Rightarrow> Inr (True, p1))
                 else Inr (False, p)) of
             Inl e \<Rightarrow> Inl e
           | Inr (is_opt, p1) \<Rightarrow>
               (case cur_token p1 of
                  None \<Rightarrow> Inl AttributeError
                | Some t1 \<Rightarrow>
                    if tok_kind t1 = Asterisk
                    then (case advance p1 of Inl e \<Rightarrow> Inl e | Inr (_, p2) \<Rightarrow> Inr ((True, is_opt), p2))
                    else Inr ((False, is_opt), p1))))"

text \<open>One field after its type identifier has been seen: the body of the loop of
  \<open>_parse_fields\<close> up to \<open>fields.append\<close>.\<close>

definition parse_field :: "Token \<Rightarrow> parser \<Rightarrow> error + (Field \<times> parser)" where
  "parse_field t p =
     (case advance p of
        Inl e \<Rightarrow> Inl e
      | Inr (_, p1) \<Rightarrow>
          (case parse_optional_field_quantifier p1 of
             Inl e \<Rightarrow> Inl e
           | Inr ((is_seq, is_opt), p2) \<Rightarrow>
               (case cur_token p2 of
                  None \<Rightarrow> Inl AttributeError
                | Some t2 \<Rightarrow>
                    (case (if tok_kind t2 \<in> set id_kinds then advance p2 else Inr (None, p2)) of
                       Inl e \<Rightarrow> Inl e
                     | Inr (ident, p3) \<Rightarrow> Inr (Field (tok_value t) ident is_seq is_opt, p3)))))"

lemma advance_psize:
  "advance p = Inr (v, p') \<Longrightarrow> psize p' \<le> psize p"
  by (auto simp: advance_def psize_def Let_def split: prod.splits list.splits option.splits)

lemma advance_psize_less:
  "advance p = Inr (v, p') \<Longrightarrow> cur_token p = Some t \<Longrightarrow> psize p' < psize p"
  by (auto simp: advance_def psize_def Let_def split: prod.splits list.splits option.splits)

lemma match_kind_psize:
  "match_kind ks p = Inr (v, p') \<Longrightarrow> psize p' < psize p"
  by (auto simp: match_kind_def split: option.splits if_splits sum.splits prod.splits
      dest: advance_psize_less)

lemma parse_optional_field_quantifier_psize:
  "parse_optional_field_quantifier p = Inr (r, p') \<Longrightarrow> psize p' \<le> psize p"
  unfolding parse_optional_field_quantifier_def
  by (auto split: option.splits if_splits sum.splits prod.splits
      dest!: advance_psize_less)

lemma parse_field_psize:
  assumes "parse_field t p = Inr (f, p')" and "cur_token p = Some t'"
  shows "psize p' < psize p"
proof -
  from assms(1) obtain v p1 r p2 where
    a: "advance p = Inr (v, p1)" and q: "parse_optional_field_quantifier p1 = Inr (r, p2)"
    by (auto simp: parse_field_def split: sum.splits prod.splits)
  from assms(1) a q have "psize p' \<le> psize p2"
    by (auto simp: parse_field_def split: option.splits if_splits sum.splits prod.splits
        dest: advance_psize)
  moreover have "psize p2 \<le> psize p1" using q by (rule parse_optional_field_quantifier_psize)
  moreover have "psize p1 < psize p" using a assms(2) by (rule advance_psize_less)
  ultimately show ?thesis by simp
qed

text \<open>The \<open>while\<close> loop of \<open>_parse_fields\<close>, with the list built so far.\<close>

function fields_loop :: "Field list \<Rightarrow> parser \<Rightarrow> error + (Field list \<times> parser)" where
  "fields_loop acc p =
     (case cur_token p of
        None \<Rightarrow> Inl AttributeError
      | Some t \<Rightarrow>
          if tok_kind t = TypeId then
            (case parse_field t p of
               Inl e \<Rightarrow> Inl e
             | Inr (f, p3) \<Rightarrow>
                 (case cur_token p3 of
                    None \<Rightarrow> Inl AttributeError
                  | Some t3 \<Rightarrow>
                      if tok_kind t3 = RParen then Inr (acc @ [f], p3)
                      else if tok_kind t3 = Comma then
                        (case advance p3 of
                           Inl e \<Rightarrow> Inl e
                         | Inr (_, p4) \<Rightarrow> fields_loop (acc @ [f]) p4)
                      else fields_loop (acc @ [f]) p3))
          else Inr (acc, p))"
  by pat_completeness auto
termination
proof (relation "measure (\<lambda>(acc, p). psize p)")
  show "wf (measure (\<lambda>(acc, p). psize p))" by simp
next
  fix acc p t x2 f p3 t3 x2a v p4
  assume "cur_token p = Some t" "parse_field t p = Inr x2" "(f, p3) = x2"
    "cur_token p3 = Some t3" "advance p3 = Inr x2a" "(v, p4) = x2a"
  then have "psize p3 < psize p" "psize p4 < psize p3"
    by (auto dest: parse_field_psize advance_psize_less)
  then show "((acc @ [f], p4), (acc, p)) \<in> measure (\<lambda>(acc, p). psize p)" by simp
next
  fix acc p t x2 f p3 t3
  assume "cur_token p = Some t" "parse_field t p = Inr x2" "(f, p3) = x2"
  then have "psize p3 < psize p"
    by (auto dest: parse_field_psize)
  then show "((acc @ [f], p3), (acc, p)) \<in> measure (\<lambda>(acc, p). psize p)" by simp
qed

declare fields_loop.simps [simp del]

definition parse_fields :: "parser \<Rightarrow> error + (Field list \<times> parser)" where
  "parse_fields p =
     (case match_kind [LParen] p of
        Inl e \<Rightarrow> Inl e
      | Inr (_, p1) \<Rightarrow>
          (case fields_loop [] p1 of
             Inl e \<Rightarrow> Inl e
           | Inr (fs, p2) \<Rightarrow>
               (case match_kind [RParen] p2 of
                  Inl e \<Rightarrow> Inl e
                | Inr (_, p3) \<Rightarrow> Inr (fs, p3))))"

definition parse_optional_fields :: "parser \<Rightarrow> error + (Field list option \<times> parser)" where
  "parse_optional_fields p =
     (case cur_token p of
        None \<Rightarrow> Inl AttributeError
      | Some t \<Rightarrow>
          if tok_kind t = LParen then
            (case parse_fields p of Inl e \<Rightarrow> Inl e | Inr (fs, p') \<Rightarrow> Inr (Some fs, p'))
          else Inr (None, p))"

definition parse_optional_attributes :: "parser \<Rightarrow> error + (Field list option \<times> parser)" where
  "parse_optional_attributes p =
     (case at_keyword ''attributes'' p of
        Inl e \<Rightarrow> Inl e
      | Inr b \<Rightarrow>
          if b then
            (case advance p of
               Inl e \<Rightarrow> Inl e
             | Inr (_, p1) \<Rightarrow>
                 (case parse_fields p1 of Inl e \<Rightarrow> Inl e | Inr (fs, p') \<Rightarrow> Inr (Some fs, p')))
          else Inr (None, p))"

definition parse_product :: "parser \<Rightarrow> error + (Value \<times> parser)" where
  "parse_product p =
     (case parse_fields p of
        Inl e \<Rightarrow> Inl e
      | Inr (fs, p1) \<Rightarrow>
          (case parse_optional_attributes p1 of
             Inl e \<Rightarrow> Inl e
           | Inr (attrs, p2) \<Rightarrow> Inr (Product fs (or_empty attrs), p2)))"

text \<open>\<open>Constructor(self._match(TokenKind.ConstructorId), self._parse_optional_fields())\<close>.\<close>

definition parse_constructor :: "parser \<Rightarrow> error + (Constructor \<times> parser)" where
  "parse_constructor p =
     (case match_kind [ConstructorId] p of
        Inl e \<Rightarrow> Inl e
      | Inr (name, p1) \<Rightarrow>
          (case parse_optional_fields p1 of
             Inl e \<Rightarrow> Inl e
           | Inr (fs, p2) \<Rightarrow> Inr (Constructor name (or_empty fs), p2)))"

lemma fields_loop_psize:
  "fields_loop acc p = Inr (fs, p') \<Longrightarrow> psize p' \<le> psize p"
proof (induction acc p rule: fields_loop.induct)
  case (1 acc p)
  show ?case
  proof (cases "cur_token p")
    case None
    with "1.prems" show ?thesis by (simp add: fields_loop.simps [of acc p])
  next
    case (Some t)
    show ?thesis
    proof (cases "tok_kind t = TypeId")
      case False
      with Some "1.prems" show ?thesis by (simp add: fields_loop.simps [of acc p])
    next
      case True
      from "1.prems" Some True obtain f p3 where pf: "parse_field t p = Inr (f, p3)"
        by (auto simp: fields_loop.simps [of acc p] split: sum.splits)
      have lt: "psize p3 < psize p" using pf Some by (rule parse_field_psize)
      from "1.prems" Some True pf obtain t3 where c3: "cur_token p3 = Some t3"
        by (auto simp: fields_loop.simps [of acc p] split: option.splits)
      show ?thesis
      proof (cases "tok_kind t3 = RParen")
        case True
        with "1.prems" Some \<open>tok_kind t = TypeId\<close> pf c3 lt show ?thesis
          by (simp add: fields_loop.simps [of acc p])
      next
        case nr: False
        show ?thesis
        proof (cases "tok_kind t3 = Comma")
          case True
          from "1.prems" Some \<open>tok_kind t = TypeId\<close> pf c3 nr True obtain v p4 where
            a: "advance p3 = Inr (v, p4)" and r: "fields_loop (acc @ [f]) p4 = Inr (fs, p')"
            by (auto simp: fields_loop.simps [of acc p] split: sum.splits)
          have "psize p' \<le> psize p4"
            using "1.IH"(1) [OF Some \<open>tok_kind t = TypeId\<close> pf refl c3 nr True a refl r] .
          moreover have "psize p4 \<le> psize p3" using a by (rule advance_psize)
          ultimately show ?thesis using lt by simp
        next
          case False
          from "1.prems" Some \<open>tok_kind t = TypeId\<close> pf c3 nr False have
            r: "fields_loop (acc @ [f]) p3 = Inr (fs, p')"
            by (simp add: fields_loop.simps [of acc p])
          have "psize p' \<le> psize p3"
            using "1.IH"(2) [OF Some \<open>tok_kind t = TypeId\<close> pf refl c3 nr False r] .
          then show ?thesis using lt by simp
        qed
      qed
    qed
  qed
qed

lemma parse_fields_psize:
  "parse_fields p = Inr (fs, p') \<Longrightarrow> psize p' < psize p"
  unfolding parse_fields_def
  by (fastforce split: sum.splits prod.splits
      dest: match_kind_psize fields_loop_psize)

lemma parse_optional_fields_psize:
  "parse_optional_fields p = Inr (fs, p') \<Longrightarrow> psize p' \<le> psize p"
  unfolding parse_optional_fields_def
  by (fastforce split: option.splits if_splits sum.splits prod.splits
      dest: parse_fields_psize)

lemma parse_optional_attributes_psize:
  "parse_optional_attributes p = Inr (fs, p') \<Longrightarrow> psize p' \<le> psize p"
  unfolding parse_optional_attributes_def
  by (fastforce split: if_splits sum.splits prod.splits
      dest: parse_fields_psize advance_psize)

lemma parse_constructor_psize:
  "parse_constructor p = Inr (c, p') \<Longrightarrow> psize p' < psize p"
  unfolding parse_constructor_def
  by (fastforce split: sum.splits prod.splits
      dest: match_kind_psize parse_optional_fields_psize)

lemma parse_product_psize:
  "parse_product p = Inr (v, p') \<Longrightarrow> psize p' < psize p"
  unfolding parse_product_def
  by (fastforce split: sum.splits prod.splits
      dest: parse_fields_psize parse_optional_attributes_psize)

text \<open>The \<open>while self.cur_token.kind == TokenKind.Pipe\<close> loop of \<open>_parse_type\<close>.\<close>

function constructors_loop ::
  "Constructor list \<Rightarrow> parser \<Rightarrow> error + (Constructor list \<times> parser)" where
  "constructors_loop sumlist p =
     (case cur_token p of
        None \<Rightarrow> Inl AttributeError
      | Some t \<Rightarrow>
          if tok_kind t = Pipe then
            (case advance p of
               Inl e \<Rightarrow> Inl e
             | Inr (_, p1) \<Rightarrow>
                 (case parse_constructor p1 of
                    Inl e \<Rightarrow> Inl e
                  | Inr (c, p2) \<Rightarrow> constructors_loop (sumlist @ [c]) p2))
          else Inr (sumlist, p))"
  by pat_completeness auto
termination
proof (relation "measure (\<lambda>(sumlist, p). psize p)")
  show "wf (measure (\<lambda>(sumlist, p). psize p))" by simp
next
  fix sumlist p t x2 v p1 x2a c p2
  assume "cur_token p = Some t" "advance p = Inr x2" "(v, p1) = x2"
    "parse_constructor p1 = Inr x2a" "(c, p2) = x2a"
  then have "psize p1 < psize p" "psize p2 < psize p1"
    by (auto dest: advance_psize_less parse_constructor_psize)
  then show "((sumlist @ [c], p2), (sumlist, p)) \<in> measure (\<lambda>(sumlist, p). psize p)" by simp
qed

declare constructors_loop.simps [simp del]

lemma constructors_loop_psize:
  "constructors_loop acc p = Inr (cs, p') \<Longrightarrow> psize p' \<le> psize p"
proof (induction acc p rule: constructors_loop.induct)
  case (1 sumlist p)
  show ?case
  proof (cases "cur_token p")
    case None
    with "1.prems" show ?thesis by (simp add: constructors_loop.simps [of sumlist p])
  next
    case (Some t)
    show ?thesis
    proof (cases "tok_kind t = Pipe")
      case False
      with Some "1.prems" show ?thesis by (simp add: constructors_loop.simps [of sumlist p])
    next
      case True
      from "1.prems" Some True obtain v p1 c p2 where
        a: "advance p = Inr (v, p1)" and pc: "parse_constructor p1 = Inr (c, p2)"
        and r: "constructors_loop (sumlist @ [c]) p2 = Inr (cs, p')"
        by (auto simp: constructors_loop.simps [of sumlist p] split: sum.splits)
      have "psize p' \<le> psize p2" using "1.IH" [OF Some True a refl pc refl r] .
      moreover have "psize p2 < psize p1" using pc by (rule parse_constructor_psize)
      moreover have "psize p1 \<le> psize p" using a by (rule advance_psize)
      ultimately show ?thesis by simp
    qed
  qed
qed

definition parse_type :: "parser \<Rightarrow> error + (Value \<times> parser)" where
  "parse_type p =
     (case cur_token p of
        None \<Rightarrow> Inl AttributeError
      | Some t \<Rightarrow>
          if tok_kind t = LParen then parse_product p
          else
            (case parse_constructor p of
               Inl e \<Rightarrow> Inl e
             | Inr (c, p1) \<Rightarrow>
                 (case constructors_loop [c] p1 of
                    Inl e \<Rightarrow> Inl e
                  | Inr (sumlist, p2) \<Rightarrow>
                      (case parse_optional_attributes p2 of
                         Inl e \<Rightarrow> Inl e
                       | Inr (attrs, p3) \<Rightarrow> Inr (Sum sumlist (or_empty attrs), p3)))))"

lemma parse_type_psize:
  "parse_type p = Inr (v, p') \<Longrightarrow> psize p' < psize p"
  unfolding parse_type_def
  by (fastforce split: option.splits if_splits sum.splits prod.splits
      dest: parse_product_psize parse_constructor_psize constructors_loop_psize
        parse_optional_attributes_psize)

text \<open>The \<open>while\<close> loop of \<open>_parse_definitions\<close>.\<close>

function definitions_loop :: "Type list \<Rightarrow> parser \<Rightarrow> error + (Type list \<times> parser)" where
  "definitions_loop defs p =
     (case cur_token p of
        None \<Rightarrow> Inl AttributeError
      | Some t \<Rightarrow>
          if tok_kind t = TypeId then
            (case advance p of
               Inl e \<Rightarrow> Inl e
             | Inr (_, p1) \<Rightarrow>
                 (case match_kind [Equals] p1 of
                    Inl e \<Rightarrow> Inl e
                  | Inr (_, p2) \<Rightarrow>
                      (case parse_type p2 of
                         Inl e \<Rightarrow> Inl e
                       | Inr (ty, p3) \<Rightarrow> definitions_loop (defs @ [Type (tok_value t) ty]) p3)))
          else Inr (defs, p))"
  by pat_completeness auto
termination
proof (relation "measure (\<lambda>(defs, p). psize p)")
  show "wf (measure (\<lambda>(defs, p). psize p))" by simp
next
  fix defs p t x2 v p1 x2a w p2 x2b ty p3
  assume "cur_token p = Some t" "advance p = Inr x2" "(v, p1) = x2"
    "match_kind [Equals] p1 = Inr x2a" "(w, p2) = x2a" "parse_type p2 = Inr x2b" "(ty, p3) = x2b"
  then have "psize p1 < psize p" "psize p2 < psize p1" "psize p3 < psize p2"
    by (auto dest: advance_psize_less match_kind_psize parse_type_psize)
  then show "((defs @ [Type (tok_value t) ty], p3), (defs, p)) \<in> measure (\<lambda>(defs, p). psize p)"
    by simp
qed

declare definitions_loop.simps [simp del]

definition parse_definitions :: "parser \<Rightarrow> error + (Type list \<times> parser)" where
  "parse_definitions p = definitions_loop [] p"

definition parse_module :: "parser \<Rightarrow> error + Module" where
  "parse_module p =
     (case at_keyword ''module'' p of
        Inl e \<Rightarrow> Inl e
      | Inr b \<Rightarrow>
          (case (if b then advance p
                 else (case cur_token p of
                         None \<Rightarrow> Inl AttributeError
                       | Some t \<Rightarrow> Inl (ASDLSyntaxError (ExpectedModule (tok_value t)) (tok_lineno t)))) of
             Inl e \<Rightarrow> Inl e
           | Inr (_, p1) \<Rightarrow>
               (case match_kind id_kinds p1 of
                  Inl e \<Rightarrow> Inl e
                | Inr (name, p2) \<Rightarrow>
                    (case match_kind [LBrace] p2 of
                       Inl e \<Rightarrow> Inl e
                     | Inr (_, p3) \<Rightarrow>
                         (case parse_definitions p3 of
                            Inl e \<Rightarrow> Inl e
                          | Inr (defs, p4) \<Rightarrow>
                              (case match_kind [RBrace] p4 of
                                 Inl e \<Rightarrow> Inl e
                               | Inr (_, p5) \<Rightarrow> Inr (mk_Module name defs)))))))"

text \<open>\<open>ASDLParser.parse\<close>, from the generator on: \<open>self._advance()\<close> loads the first
  token, then \<open>_parse_module\<close> runs.\<close>

definition parse_tokens :: "token_stream \<Rightarrow> error + Module" where
  "parse_tokens ts =
     (case advance \<lparr>cur_token = None, tokenizer = ts\<rparr> of
        Inl e \<Rightarrow> Inl e
      | Inr (_, p) \<Rightarrow> parse_module p)"

definition parse :: "string \<Rightarrow> error + Module" where
  "parse buf = parse_tokens (tokenize_asdl buf)"

section \<open>Checker (lines 172-231)\<close>

text \<open>The state of a \<open>Check\<close> visitor. \<open>self.types\<close> is a dict from a type name to
  the list of the names that use it; its keys are kept in insertion order, which is the
  order \<open>check\<close> walks them in.\<close>

record Check =
  cons :: "string \<rightharpoonup> string"
  errors :: nat
  uses :: "(string \<times> string list) list"

definition Check_init :: Check where
  "Check_init = \<lparr>cons = Map.empty, errors = 0, uses = []\<rparr>"

text \<open>\<open>l = self.types.setdefault(key, []); l.append(name)\<close>.\<close>

fun setdefault_append :: "string \<Rightarrow> string \<Rightarrow> (string \<times> string list) list \<Rightarrow> (string \<times> string list) list" where
  "setdefault_append key name [] = [(key, [name])]"
| "setdefault_append key name ((k, l) # kvs) =
     (if k = key then (k, l @ [name]) # kvs else (k, l) # setdefault_append key name kvs)"

definition visitField :: "string \<Rightarrow> Field \<Rightarrow> Check \<Rightarrow> Check" where
  "visitField name field v = v\<lparr>uses := setdefault_append (f_type field) name (uses v)\<rparr>"

definition visitConstructor :: "string \<Rightarrow> Constructor \<Rightarrow> Check \<Rightarrow> Check" where
  "visitConstructor name c v =
     (let key = c_name c;
          v1 = (case cons v key of
                  None \<Rightarrow> v\<lparr>cons := (cons v)(key \<mapsto> name)\<rparr>
                | Some conflict \<Rightarrow> v\<lparr>errors := errors v + 1\<rparr>)
      in fold (visitField key) (c_fields c) v1)"

text \<open>\<open>visitSum\<close> walks \<open>sum.types\<close> and \<open>visitProduct\<close> walks \<open>prod.fields\<close>;
  neither looks at the attributes.\<close>

definition visitSum :: "string \<Rightarrow> Constructor list \<Rightarrow> Field list \<Rightarrow> Check \<Rightarrow> Check" where
  "visitSum name sum_types sum_attributes v = fold (visitConstructor name) sum_types v"

definition visitProduct :: "string \<Rightarrow> Field list \<Rightarrow> Field list \<Rightarrow> Check \<Rightarrow> Check" where
  "visitProduct name prod_fields prod_attributes v = fold (visitField name) prod_fields v"

definition visitType :: "Type \<Rightarrow> Check \<Rightarrow> Check" where
  "visitType ty v =
     (case t_value ty of
        Sum ts attrs \<Rightarrow> visitSum (t_name ty) ts attrs v
      | Product fs attrs \<Rightarrow> visitProduct (t_name ty) fs attrs v)"

definition visitModule :: "Module \<Rightarrow> Check \<Rightarrow> Check" where
  "visitModule md v = fold visitType (dfns md) v"

definition check :: "Module \<Rightarrow> bool" where
  "check md =
     (let v = visitModule md Check_init;
          errs = fold (\<lambda>t e. if types md t = None \<and> t \<notin> set builtin_types then e + 1 else e)
                   (map fst (uses v)) (errors v)
      in errs = 0)"

text \<open>The names the claims about \<open>check\<close> speak of: the constructor names of a
  module in source order, the fields of its products and constructors, and the attribute
  fields of its sums and products.\<close>

definition constructor_names :: "Type list \<Rightarrow> string list" where
  "constructor_names ds =
     concat (map (\<lambda>ty. case t_value ty of Sum ts attrs \<Rightarrow> map c_name ts | Product fs attrs \<Rightarrow> []) ds)"

definition visited_fields :: "Type list \<Rightarrow> Field list" where
  "visited_fields ds =
     concat (map (\<lambda>ty. case t_value ty of
                          Sum ts attrs \<Rightarrow> concat (map c_fields ts)
                        | Product fs attrs \<Rightarrow> fs) ds)"

definition attribute_fields :: "Type list \<Rightarrow> Field list" where
  "attribute_fields ds =
     concat (map (\<lambda>ty. case t_value ty of Sum ts attrs \<Rightarrow> attrs | Product fs attrs \<Rightarrow> attrs) ds)"

definition keys :: "Check \<Rightarrow> string set" where
  "keys v = set (map fst (uses v))"

definition names_of :: "Type \<Rightarrow> string list" where
  "names_of ty = (case t_value ty of Sum ts attrs \<Rightarrow> map c_name ts | Product fs attrs \<Rightarrow> [])"

definition fields_of :: "Type \<Rightarrow> Field list" where
  "fields_of ty = (case t_value ty of Sum ts attrs \<Rightarrow> concat (map c_fields ts) | Product fs attrs \<Rightarrow> fs)"

text \<open>What a caller can observe of a result: the error, or the name and the definitions of
  the module (the name-to-value mapping is derived from the definitions).\<close>

definition outcome :: "error + Module \<Rightarrow> error + (string \<times> Type list)" where
  "outcome r = (case r of Inl e \<Rightarrow> Inl e | Inr m \<Rightarrow> Inr (m_name m, dfns m))"

text \<open>The parser state that has \<open>toks\<close> ahead of it, the first one being current.\<close>

definition st :: "Token list \<Rightarrow> error option \<Rightarrow> parser" where
  "st toks e = (case toks of
                  [] \<Rightarrow> \<lparr>cur_token = None, tokenizer = ([], e)\<rparr>
                | t # ts \<Rightarrow> \<lparr>cur_token = Some t, tokenizer = (ts, e)\<rparr>)"

text \<open>Auxiliary notions for the proofs about the fields loop. \<open>finish\<close> is the end of
  \<open>_parse_fields\<close> after its loop. Two parser states are similar when they differ by one
  comma in front of the next closing parenthesis: \<open>sim_in\<close> while tokens of the list are
  still ahead, \<open>sim_end\<close> when the closing parenthesis (or that comma) is current.
  \<open>prepend\<close> and \<open>retype\<close> change the list built so far and the type name of a parsed
  field.\<close>

definition sim_end :: "parser \<Rightarrow> parser \<Rightarrow> bool" where
  "sim_end p p' \<longleftrightarrow>
     (\<exists>c r rest e. p = st (r # rest) e \<and> p' = st (c # r # rest) e \<and>
        tok_kind r = RParen \<and> tok_kind c = Comma)"

definition sim_in :: "parser \<Rightarrow> parser \<Rightarrow> bool" where
  "sim_in p p' \<longleftrightarrow>
     (\<exists>t toks c r rest e. p = st (t # toks @ r # rest) e \<and> p' = st (t # toks @ c # r # rest) e \<and>
        tok_kind r = RParen \<and> tok_kind c = Comma \<and>
        (\<forall>x\<in>set (t # toks). tok_kind x \<noteq> RParen) \<and> tok_kind (last (t # toks)) \<noteq> Comma)"

definition sim :: "parser \<Rightarrow> parser \<Rightarrow> bool" where
  "sim p p' \<longleftrightarrow> sim_in p p' \<or> sim_end p p'"

definition rel_res :: "error + ('a \<times> parser) \<Rightarrow> error + ('a \<times> parser) \<Rightarrow> bool" where
  "rel_res x y \<longleftrightarrow> (\<exists>r q q'. x = Inr (r, q) \<and> y = Inr (r, q') \<and> sim q q')"

definition finish :: "error + (Field list \<times> parser) \<Rightarrow> error + (Field list \<times> parser)" where
  "finish r =
     (case r of
        Inl e \<Rightarrow> Inl e
      | Inr (fs, p2) \<Rightarrow>
          (case match_kind [RParen] p2 of Inl e \<Rightarrow> Inl e | Inr (_, p3) \<Rightarrow> Inr (fs, p3)))"

definition prepend :: "'a list \<Rightarrow> error + ('a list \<times> parser) \<Rightarrow> error + ('a list \<times> parser)" where
  "prepend acc r = (case r of Inl e \<Rightarrow> Inl e | Inr (ds, q) \<Rightarrow> Inr (acc @ ds, q))"


section \<open>Evaluation lemmas\<close>

lemmas parser_defs = parse_tokens_def parse_module_def parse_definitions_def parse_type_def
  parse_product_def parse_constructor_def parse_optional_fields_def parse_optional_attributes_def
  parse_fields_def parse_field_def parse_optional_field_quantifier_def at_keyword_def
  match_kind_def advance_def id_kinds_def or_empty_def

lemma outcome_Inl: "outcome r = Inl e \<Longrightarrow> r = Inl e"
  by (cases r) (simp_all add: outcome_def)

lemma parse_module_mk: "parse_module p = Inr m \<Longrightarrow> m = mk_Module (m_name m) (dfns m)"
  unfolding parse_module_def
  by (auto simp: mk_Module_def split: sum.splits prod.splits if_splits option.splits)

lemma parse_tokens_mk: "parse_tokens s = Inr m \<Longrightarrow> m = mk_Module (m_name m) (dfns m)"
  unfolding parse_tokens_def
  by (auto split: sum.splits prod.splits dest: parse_module_mk)

lemma outcome_Inr:
  assumes "outcome (parse_tokens s) = Inr (n, ds)"
  shows "parse_tokens s = Inr (mk_Module n ds)"
proof -
  from assms obtain m where m: "parse_tokens s = Inr m" "m_name m = n" "dfns m = ds"
    by (cases "parse_tokens s") (auto simp: outcome_def)
  from parse_tokens_mk [OF m(1)] m show ?thesis by simp
qed

section \<open>Tokenizer properties\<close>

lemma tokenize_matches_kind:
  "t \<in> set (fst (tokenize_matches n ms)) \<Longrightarrow>
     tok_value t \<noteq> [] \<and> tok_lineno t = n \<and>
     (is_alpha (hd (tok_value t)) \<longrightarrow>
        tok_kind t = (if is_upper (hd (tok_value t)) then ConstructorId else TypeId))"
proof (induction ms)
  case Nil
  then show ?case by simp
next
  case (Cons c ms)
  show ?case
  proof (cases c)
    case Nil
    with Cons.prems show ?thesis by simp
  next
    case (Cons c0 cs)
    with Cons.prems Cons.IH show ?thesis
      by (auto simp: yield_def operator_table_getitem_def split: if_splits)
  qed
qed

lemma tokenize_lines_kind:
  "t \<in> set (fst (tokenize_lines n ls)) \<Longrightarrow>
     tok_value t \<noteq> [] \<and>
     (is_alpha (hd (tok_value t)) \<longrightarrow>
        tok_kind t = (if is_upper (hd (tok_value t)) then ConstructorId else TypeId))"
proof (induction ls arbitrary: n)
  case Nil
  then show ?case by simp
next
  case (Cons l ls)
  obtain ts e where tm: "tokenize_matches n (finditer (strip l)) = (ts, e)"
    by (cases "tokenize_matches n (finditer (strip l))")
  have "t \<in> set ts \<or> t \<in> set (fst (tokenize_lines (Suc n) ls))"
    using Cons.prems tm by (auto split: option.splits)
  then show ?case
  proof
    assume "t \<in> set ts"
    then have "t \<in> set (fst (tokenize_matches n (finditer (strip l))))" using tm by simp
    then show ?thesis using tokenize_matches_kind by blast
  next
    assume "t \<in> set (fst (tokenize_lines (Suc n) ls))"
    then show ?thesis by (rule Cons.IH)
  qed
qed

text \<open>
  Claim C7. Every token the tokenizer emits for a word has a non-empty value, and when that
  value starts with a letter its kind is decided by the case of that first letter alone:
  \<open>ConstructorId\<close> when it is upper case, \<open>TypeId\<close> otherwise.
\<close>

theorem identifier_kind_by_first_character:
  "t \<in> set (fst (tokenize_asdl buf)) \<Longrightarrow>
     tok_value t \<noteq> [] \<and>
     (is_alpha (hd (tok_value t)) \<longrightarrow>
        tok_kind t = (if is_upper (hd (tok_value t)) then ConstructorId else TypeId))"
  unfolding tokenize_asdl_def by (rule tokenize_lines_kind)

theorem identifier_kind_by_first_character_witness:
  "Token ConstructorId ''Expr'' 1 \<in> set (fst (tokenize_asdl ''Expr value'')) \<and>
   Token TypeId ''value'' 1 \<in> set (fst (tokenize_asdl ''Expr value'')) \<and>
   is_alpha (hd ''Expr'') \<and> is_upper (hd ''Expr'') \<and>
   is_alpha (hd ''value'') \<and> \<not> is_upper (hd ''value'')"
proof -
  have m: "Token ConstructorId ''Expr'' 1 \<in> set (fst (tokenize_asdl ''Expr value''))"
    by code_simp
  have m': "Token TypeId ''value'' 1 \<in> set (fst (tokenize_asdl ''Expr value''))"
    by code_simp
  have a: "is_alpha (hd ''Expr'')" "is_upper (hd ''Expr'')"
    "is_alpha (hd ''value'')" "\<not> is_upper (hd ''value'')" by code_simp+
  from identifier_kind_by_first_character [OF m] identifier_kind_by_first_character [OF m'] a m m'
  show ?thesis by simp
qed

text \<open>
  Claim C6. The claim says that each of the operator characters \<open>= , ? | ( ) * { }\<close> becomes
  one token of its kind and that any other character is a syntax error with the character and
  the line number. In the code the table lookup itself raises \<open>TypeError\<close>: tokenizing any
  of the nine operator characters, or an invalid character such as \<open>$\<close>, yields no token and
  ends with \<open>TypeError\<close>; after a word the tokens before it are still yielded.
\<close>

theorem operator_characters_raise_TypeError:
  "map tokenize_asdl [''='', '','', ''?'', ''|'', ''('', '')'', ''*'', ''{'', ''}'', ''$'']
     = replicate 10 ([], Some TypeError) \<and>
   tokenize_asdl ''stmt = Pass'' = ([Token TypeId ''stmt'' 1], Some TypeError)"
  by code_simp

section \<open>Parsing text\<close>

text \<open>
  Claim C2. The claim says that \<open>parse\<close> succeeds on every input that conforms to the grammar.
  Example 1 of the specification conforms to the grammar, and \<open>parse\<close> ends with
  \<open>TypeError\<close> on it, raised by the tokenizer at the opening brace; the parser run on the
  tokens the text stands for returns the module with its one definition.
\<close>

theorem parse_conforming_text_raises_TypeError:
  "parse ''module Test { stmt = Expr(int value) | Pass }'' = Inl TypeError \<and>
   parse_tokens
     ([Token TypeId ''module'' 1, Token ConstructorId ''Test'' 1, Token LBrace ''{'' 1,
       Token TypeId ''stmt'' 1, Token Equals ''='' 1, Token ConstructorId ''Expr'' 1,
       Token LParen ''('' 1, Token TypeId ''int'' 1, Token TypeId ''value'' 1,
       Token RParen '')'' 1, Token Pipe ''|'' 1, Token ConstructorId ''Pass'' 1,
       Token RBrace ''}'' 1], None)
     = Inr (mk_Module ''Test''
         [Type ''stmt'' (Sum [Constructor ''Expr'' [Field ''int'' (Some ''value'') False False],
                              Constructor ''Pass'' []] [])])"
proof
  show "parse ''module Test { stmt = Expr(int value) | Pass }'' = Inl TypeError"
    by (rule outcome_Inl) code_simp
next
  show "parse_tokens
     ([Token TypeId ''module'' 1, Token ConstructorId ''Test'' 1, Token LBrace ''{'' 1,
       Token TypeId ''stmt'' 1, Token Equals ''='' 1, Token ConstructorId ''Expr'' 1,
       Token LParen ''('' 1, Token TypeId ''int'' 1, Token TypeId ''value'' 1,
       Token RParen '')'' 1, Token Pipe ''|'' 1, Token ConstructorId ''Pass'' 1,
       Token RBrace ''}'' 1], None)
     = Inr (mk_Module ''Test''
         [Type ''stmt'' (Sum [Constructor ''Expr'' [Field ''int'' (Some ''value'') False False],
                              Constructor ''Pass'' []] [])])"
    by (rule outcome_Inr) code_simp
qed

text \<open>
  Claim C8. The claim says that parsing \<open>module Test { stmt = }\<close> raises a syntax error with
  the line of the closing brace. \<open>parse\<close> ends with \<open>TypeError\<close> (which has no line
  number) at the opening brace. The parser run on the tokens the text stands for does raise
  the syntax error, with the line number of the \<open>}\<close> token, whatever that line is.
\<close>

theorem parse_missing_type_raises_TypeError:
  "parse ''module Test { stmt = }'' = Inl TypeError \<and>
   parse_tokens
     ([Token TypeId ''module'' l1, Token ConstructorId ''Test'' l2, Token LBrace ''{'' l3,
       Token TypeId ''stmt'' l4, Token Equals ''='' l5, Token RBrace ''}'' l6], None)
     = Inl (ASDLSyntaxError (Unmatched [ConstructorId] RBrace) l6)"
proof
  show "parse ''module Test { stmt = }'' = Inl TypeError"
    by (rule outcome_Inl) code_simp
next
  show "parse_tokens
     ([Token TypeId ''module'' l1, Token ConstructorId ''Test'' l2, Token LBrace ''{'' l3,
       Token TypeId ''stmt'' l4, Token Equals ''='' l5, Token RBrace ''}'' l6], None)
     = Inl (ASDLSyntaxError (Unmatched [ConstructorId] RBrace) l6)"
    by (simp add: parser_defs definitions_loop.simps)
qed

text \<open>
  Claim C9. The claim says that \<open>module M { t = () }\<close> parses to a product with no fields.
  \<open>parse\<close> ends with \<open>TypeError\<close> on that text. The parser run on the tokens the text
  stands for accepts the empty list and returns the product with no fields.
\<close>

theorem parse_empty_fields_raises_TypeError:
  "parse ''module M { t = () }'' = Inl TypeError \<and>
   parse_tokens
     ([Token TypeId ''module'' 1, Token ConstructorId ''M'' 1, Token LBrace ''{'' 1,
       Token TypeId ''t'' 1, Token Equals ''='' 1, Token LParen ''('' 1, Token RParen '')'' 1,
       Token RBrace ''}'' 1], None)
     = Inr (mk_Module ''M'' [Type ''t'' (Product [] [])])"
proof
  show "parse ''module M { t = () }'' = Inl TypeError"
    by (rule outcome_Inl) code_simp
next
  show "parse_tokens
     ([Token TypeId ''module'' 1, Token ConstructorId ''M'' 1, Token LBrace ''{'' 1,
       Token TypeId ''t'' 1, Token Equals ''='' 1, Token LParen ''('' 1, Token RParen '')'' 1,
       Token RBrace ''}'' 1], None)
     = Inr (mk_Module ''M'' [Type ''t'' (Product [] [])])"
    by (rule outcome_Inr) code_simp
qed

section \<open>The checker\<close>

lemma setdefault_append_keys:
  "fst ` set (setdefault_append k n kvs) = insert k (fst ` set kvs)"
proof (induction kvs)
  case Nil
  then show ?case by simp
next
  case (Cons kv kvs)
  obtain k' l where kv: "kv = (k', l)" by (cases kv)
  show ?case
  proof (cases "k' = k")
    case True
    then show ?thesis using kv by auto
  next
    case False
    then show ?thesis using kv Cons.IH by (simp add: insert_commute)
  qed
qed

lemma keys_update:
  "keys (v\<lparr>cons := c\<rparr>) = keys v" "keys (v\<lparr>errors := e\<rparr>) = keys v"
  by (simp_all add: keys_def)

lemma visitField_facts:
  "cons (visitField n f v) = cons v" "errors (visitField n f v) = errors v"
  "keys (visitField n f v) = insert (f_type f) (keys v)"
  by (simp_all add: visitField_def keys_def setdefault_append_keys)

lemma fold_visitField_facts:
  "cons (fold (visitField n) fs v) = cons v \<and> errors (fold (visitField n) fs v) = errors v \<and>
   keys (fold (visitField n) fs v) = keys v \<union> f_type ` set fs"
  by (induction fs arbitrary: v) (auto simp: visitField_facts)

lemma visitConstructor_dom:
  "dom (cons (visitConstructor n c v)) = insert (c_name c) (dom (cons v))"
  by (auto simp: visitConstructor_def Let_def fold_visitField_facts split: option.splits)

lemma visitConstructor_errors:
  "errors (visitConstructor n c v) = errors v + (if c_name c \<in> dom (cons v) then 1 else 0)"
  by (auto simp: visitConstructor_def Let_def fold_visitField_facts split: option.splits)

lemma visitConstructor_keys:
  "keys (visitConstructor n c v) = keys v \<union> f_type ` set (c_fields c)"
  by (simp add: visitConstructor_def Let_def fold_visitField_facts keys_update split: option.splits)

lemma fold_visitConstructor_dom:
  "dom (cons (fold (visitConstructor n) cs v)) = dom (cons v) \<union> set (map c_name cs)"
  by (induction cs arbitrary: v) (simp_all add: visitConstructor_dom)

lemma fold_visitConstructor_keys:
  "keys (fold (visitConstructor n) cs v) = keys v \<union> f_type ` set (concat (map c_fields cs))"
  by (induction cs arbitrary: v) (auto simp: visitConstructor_keys)

lemma fold_visitConstructor_errors:
  "errors (fold (visitConstructor n) cs v) = 0 \<longleftrightarrow>
     errors v = 0 \<and> distinct (map c_name cs) \<and> set (map c_name cs) \<inter> dom (cons v) = {}"
proof (induction cs arbitrary: v)
  case Nil
  then show ?case by simp
next
  case (Cons c cs)
  have "errors (fold (visitConstructor n) (c # cs) v) = 0 \<longleftrightarrow>
        errors (visitConstructor n c v) = 0 \<and> distinct (map c_name cs) \<and>
        set (map c_name cs) \<inter> dom (cons (visitConstructor n c v)) = {}"
    using Cons.IH [of "visitConstructor n c v"] by simp
  also have "\<dots> \<longleftrightarrow> errors v = 0 \<and> distinct (map c_name (c # cs)) \<and>
        set (map c_name (c # cs)) \<inter> dom (cons v) = {}"
    unfolding visitConstructor_dom visitConstructor_errors by auto
  finally show ?case .
qed

lemmas fold_visitConstructor_facts =
  fold_visitConstructor_dom fold_visitConstructor_errors fold_visitConstructor_keys

lemma visitType_dom:
  "dom (cons (visitType ty v)) = dom (cons v) \<union> set (names_of ty)"
  by (cases "t_value ty")
    (simp_all add: visitType_def visitSum_def visitProduct_def names_of_def
      fold_visitConstructor_dom fold_visitField_facts)

lemma visitType_keys:
  "keys (visitType ty v) = keys v \<union> f_type ` set (fields_of ty)"
  by (cases "t_value ty")
    (simp_all add: visitType_def visitSum_def visitProduct_def fields_of_def
      fold_visitConstructor_keys fold_visitField_facts)

lemma visitType_errors:
  "errors (visitType ty v) = 0 \<longleftrightarrow>
     errors v = 0 \<and> distinct (names_of ty) \<and> set (names_of ty) \<inter> dom (cons v) = {}"
  by (cases "t_value ty")
    (simp_all add: visitType_def visitSum_def visitProduct_def names_of_def
      fold_visitConstructor_errors fold_visitField_facts)

lemma fold_visitType_dom:
  "dom (cons (fold visitType ds v)) = dom (cons v) \<union> set (concat (map names_of ds))"
  by (induction ds arbitrary: v) (simp_all add: visitType_dom Un_assoc)

lemma fold_visitType_keys:
  "keys (fold visitType ds v) = keys v \<union> f_type ` set (concat (map fields_of ds))"
  by (induction ds arbitrary: v) (simp_all add: visitType_keys image_Un Un_assoc)

lemma fold_visitType_errors:
  "errors (fold visitType ds v) = 0 \<longleftrightarrow>
     errors v = 0 \<and> distinct (concat (map names_of ds)) \<and>
     set (concat (map names_of ds)) \<inter> dom (cons v) = {}"
proof (induction ds arbitrary: v)
  case Nil
  then show ?case by simp
next
  case (Cons d ds)
  have "errors (fold visitType (d # ds) v) = 0 \<longleftrightarrow>
        errors (visitType d v) = 0 \<and> distinct (concat (map names_of ds)) \<and>
        set (concat (map names_of ds)) \<inter> dom (cons (visitType d v)) = {}"
    using Cons.IH [of "visitType d v"] by simp
  also have "\<dots> \<longleftrightarrow> errors v = 0 \<and> distinct (concat (map names_of (d # ds))) \<and>
        set (concat (map names_of (d # ds))) \<inter> dom (cons v) = {}"
    unfolding visitType_dom visitType_errors by auto
  finally show ?case .
qed

lemma count_undefined_zero:
  "fold (\<lambda>t e. if P t then e + 1 else e) ks (n::nat) = 0 \<longleftrightarrow> n = 0 \<and> (\<forall>k\<in>set ks. \<not> P k)"
  by (induction ks arbitrary: n) auto

text \<open>
  Claim C1, as amended. \<open>check\<close> returns true exactly when no constructor name occurs twice
  in the module and every field of a product's field list or of a constructor's field list
  names a builtin type or a key of the module's name-to-value mapping. The attribute fields of
  sums and products are not looked at.
\<close>

theorem check_iff:
  "check md \<longleftrightarrow>
     distinct (constructor_names (dfns md)) \<and>
     (\<forall>f\<in>set (visited_fields (dfns md)). f_type f \<in> set builtin_types \<or> f_type f \<in> dom (types md))"
proof -
  let ?v = "fold visitType (dfns md) Check_init"
  have names: "concat (map names_of (dfns md)) = constructor_names (dfns md)"
    by (simp add: constructor_names_def names_of_def [abs_def])
  have flds: "concat (map fields_of (dfns md)) = visited_fields (dfns md)"
    by (simp add: visited_fields_def fields_of_def [abs_def])
  have e: "errors ?v = 0 \<longleftrightarrow> distinct (constructor_names (dfns md))"
    using fold_visitType_errors [of "dfns md" Check_init] names by (simp add: Check_init_def)
  have k: "set (map fst (uses ?v)) = f_type ` set (visited_fields (dfns md))"
    using fold_visitType_keys [of "dfns md" Check_init] flds by (simp add: Check_init_def keys_def)
  have "check md \<longleftrightarrow> errors ?v = 0 \<and>
          (\<forall>t\<in>set (map fst (uses ?v)). \<not> (types md t = None \<and> t \<notin> set builtin_types))"
    unfolding check_def visitModule_def Let_def by (rule count_undefined_zero)
  also have "\<dots> \<longleftrightarrow> distinct (constructor_names (dfns md)) \<and>
     (\<forall>f\<in>set (visited_fields (dfns md)). f_type f \<in> set builtin_types \<or> f_type f \<in> dom (types md))"
    unfolding e using k by (auto simp: dom_def)
  finally show ?thesis .
qed

theorem check_iff_witness:
  "check (mk_Module ''Test''
     [Type ''stmt'' (Sum [Constructor ''Expr'' [Field ''int'' (Some ''value'') False False],
                          Constructor ''Pass'' []] [])]) \<and>
   \<not> check (mk_Module ''Test''
     [Type ''stmt'' (Sum [Constructor ''Expr'' [Field ''expr'' (Some ''value'') False False]] [])]) \<and>
   \<not> check (mk_Module ''Test'' [Type ''a'' (Sum [Constructor ''X'' [], Constructor ''X'' []] [])])"
  unfolding check_iff
  by (simp add: mk_Module_def mk_types_def constructor_names_def visited_fields_def
      builtin_types_def dom_def)

text \<open>
  Claim C1 as stated fails on attribute fields: the module of
  \<open>module M { t = A attributes (nope x) }\<close> passes \<open>check\<close> although the attribute field
  refers to \<open>nope\<close>, which is neither builtin nor declared.
\<close>

theorem check_ignores_attribute_fields:
  "check (mk_Module ''M''
     [Type ''t'' (Sum [Constructor ''A'' []] [Field ''nope'' (Some ''x'') False False])]) \<and>
   Field ''nope'' (Some ''x'') False False \<in> set (attribute_fields (dfns (mk_Module ''M''
     [Type ''t'' (Sum [Constructor ''A'' []] [Field ''nope'' (Some ''x'') False False])]))) \<and>
   ''nope'' \<notin> set builtin_types \<and>
   types (mk_Module ''M''
     [Type ''t'' (Sum [Constructor ''A'' []] [Field ''nope'' (Some ''x'') False False])]) ''nope'' = None"
  by (simp add: check_def visitModule_def visitType_def visitSum_def visitConstructor_def
      Check_init_def mk_Module_def mk_types_def attribute_fields_def builtin_types_def)

section \<open>The fields loop and the contextual keyword\<close>

lemma st_simps:
  "st [] e = \<lparr>cur_token = None, tokenizer = ([], e)\<rparr>"
  "st (t # ts) e = \<lparr>cur_token = Some t, tokenizer = (ts, e)\<rparr>"
  by (simp_all add: st_def)

lemma cur_token_st: "cur_token (st (t # ts) e) = Some t"
  by (simp add: st_simps)

lemma advance_st: "advance (st (t # u # ts) e) = Inr (Some (tok_value t), st (u # ts) e)"
  by (simp add: advance_def st_simps)

lemma sim_inI:
  "tok_kind r = RParen \<Longrightarrow> tok_kind c = Comma \<Longrightarrow> \<forall>x\<in>set (t # toks). tok_kind x \<noteq> RParen \<Longrightarrow>
   tok_kind (last (t # toks)) \<noteq> Comma \<Longrightarrow>
   sim_in (st (t # toks @ r # rest) e) (st (t # toks @ c # r # rest) e)"
  unfolding sim_in_def by blast

lemma sim_end_cur:
  assumes "sim_end p p'"
  shows "\<exists>r c. cur_token p = Some r \<and> tok_kind r = RParen \<and> cur_token p' = Some c \<and>
           tok_kind c = Comma \<and> advance p' = Inr (Some (tok_value c), p)"
  using assms unfolding sim_end_def by (auto simp: cur_token_st advance_st)

lemma sim_in_cur:
  assumes "sim_in p p'"
  shows "\<exists>t q q'. cur_token p = Some t \<and> cur_token p' = Some t \<and> tok_kind t \<noteq> RParen \<and>
           advance p = Inr (Some (tok_value t), q) \<and> advance p' = Inr (Some (tok_value t), q') \<and>
           (sim_in q q' \<or> (sim_end q q' \<and> tok_kind t \<noteq> Comma))"
proof -
  from assms obtain t toks c r rest e where
    p: "p = st (t # toks @ r # rest) e" and p': "p' = st (t # toks @ c # r # rest) e" and
    k: "tok_kind r = RParen" "tok_kind c = Comma" and
    n: "\<forall>x\<in>set (t # toks). tok_kind x \<noteq> RParen" and l: "tok_kind (last (t # toks)) \<noteq> Comma"
    unfolding sim_in_def by blast
  show ?thesis
  proof (cases toks)
    case Nil
    have "sim_end (st (r # rest) e) (st (c # r # rest) e)"
      unfolding sim_end_def using k by blast
    with Nil p p' n l show ?thesis by (simp add: cur_token_st advance_st)
  next
    case (Cons u us)
    have "sim_in (st (u # us @ r # rest) e) (st (u # us @ c # r # rest) e)"
      using sim_inI [of r c u us rest e] k n l Cons by simp
    with Cons p p' n show ?thesis by (simp add: cur_token_st advance_st)
  qed
qed

text \<open>One optional step of the parser: the current token is consumed when its kind is in
  \<open>K\<close>.\<close>

lemma sim_step:
  assumes "sim_in p p' \<or> sim_end p p'" and "RParen \<notin> K" and "Comma \<notin> K"
  shows "\<exists>t t'. cur_token p = Some t \<and> cur_token p' = Some t' \<and>
           (tok_kind t \<in> K \<longleftrightarrow> tok_kind t' \<in> K) \<and>
           (tok_kind t \<in> K \<longrightarrow>
              (\<exists>q q'. advance p = Inr (Some (tok_value t), q) \<and>
                       advance p' = Inr (Some (tok_value t), q') \<and>
                       (sim_in q q' \<or> sim_end q q')))"
  using assms(1)
proof
  assume "sim_in p p'"
  from sim_in_cur [OF this] show ?thesis by blast
next
  assume "sim_end p p'"
  from sim_end_cur [OF this] assms(2,3) show ?thesis by auto
qed

lemma rel_resI: "sim q q' \<Longrightarrow> rel_res (Inr (r, q)) (Inr (r, q'))"
  unfolding rel_res_def by blast

lemma quantifier_tail_sim:
  assumes "sim p p'"
  shows "rel_res
     (case cur_token p of
        None \<Rightarrow> Inl AttributeError
      | Some t1 \<Rightarrow>
          if tok_kind t1 = Asterisk
          then (case advance p of Inl e \<Rightarrow> Inl e | Inr (_, p2) \<Rightarrow> Inr ((True, o1), p2))
          else Inr ((False, o1), p))
     (case cur_token p' of
        None \<Rightarrow> Inl AttributeError
      | Some t1 \<Rightarrow>
          if tok_kind t1 = Asterisk
          then (case advance p' of Inl e \<Rightarrow> Inl e | Inr (_, p2) \<Rightarrow> Inr ((True, o1), p2))
          else Inr ((False, o1), p'))"
proof -
  from assms have s: "sim_in p p' \<or> sim_end p p'" by (simp add: sim_def)
  from sim_step [OF s, of "{Asterisk}"] obtain u u' where
    c: "cur_token p = Some u" "cur_token p' = Some u'"
       "tok_kind u = Asterisk \<longleftrightarrow> tok_kind u' = Asterisk" and
    a: "tok_kind u = Asterisk \<longrightarrow>
              (\<exists>q q'. advance p = Inr (Some (tok_value u), q) \<and>
                       advance p' = Inr (Some (tok_value u), q') \<and>
                       (sim_in q q' \<or> sim_end q q'))"
    by auto
  show ?thesis
  proof (cases "tok_kind u = Asterisk")
    case True
    with a obtain q q' where "advance p = Inr (Some (tok_value u), q)"
      "advance p' = Inr (Some (tok_value u), q')" "sim q q'" unfolding sim_def by blast
    with c True show ?thesis by (simp add: rel_resI)
  next
    case False
    with c assms show ?thesis by (simp add: rel_resI)
  qed
qed

lemma quantifier_sim:
  assumes "sim p p'"
  shows "rel_res (parse_optional_field_quantifier p) (parse_optional_field_quantifier p')"
proof -
  from assms have s: "sim_in p p' \<or> sim_end p p'" by (simp add: sim_def)
  from sim_step [OF s, of "{Question}"] obtain t t' where
    c: "cur_token p = Some t" "cur_token p' = Some t'"
       "tok_kind t = Question \<longleftrightarrow> tok_kind t' = Question" and
    a: "tok_kind t = Question \<longrightarrow>
              (\<exists>q q'. advance p = Inr (Some (tok_value t), q) \<and>
                       advance p' = Inr (Some (tok_value t), q') \<and>
                       (sim_in q q' \<or> sim_end q q'))"
    by auto
  show ?thesis
  proof (cases "tok_kind t = Question")
    case True
    with a obtain p1 p1' where adv: "advance p = Inr (Some (tok_value t), p1)"
      "advance p' = Inr (Some (tok_value t), p1')" and s: "sim p1 p1'"
      unfolding sim_def by blast
    from quantifier_tail_sim [OF s, of True] c True adv show ?thesis
      unfolding parse_optional_field_quantifier_def by simp
  next
    case False
    from quantifier_tail_sim [OF assms, of False] c False show ?thesis
      unfolding parse_optional_field_quantifier_def by simp
  qed
qed

lemma parse_field_sim:
  assumes "sim_in p p'" and "cur_token p = Some t" and "tok_kind t = TypeId"
  shows "rel_res (parse_field t p) (parse_field t p')"
proof -
  from sim_in_cur [OF assms(1)] assms(2,3) obtain p1 p1' where
    a: "advance p = Inr (Some (tok_value t), p1)" "advance p' = Inr (Some (tok_value t), p1')"
    and s: "sim p1 p1'"
    unfolding sim_def by auto
  from quantifier_sim [OF s] obtain r p2 p2' where
    q: "parse_optional_field_quantifier p1 = Inr (r, p2)"
       "parse_optional_field_quantifier p1' = Inr (r, p2')" and
    s2: "sim p2 p2'"
    unfolding rel_res_def by blast
  from s2 have s2': "sim_in p2 p2' \<or> sim_end p2 p2'" by (simp add: sim_def)
  from sim_step [OF s2', of "set id_kinds"] obtain u u' where
    c: "cur_token p2 = Some u" "cur_token p2' = Some u'"
       "tok_kind u \<in> set id_kinds \<longleftrightarrow> tok_kind u' \<in> set id_kinds" and
    a2: "tok_kind u \<in> set id_kinds \<longrightarrow>
              (\<exists>q q'. advance p2 = Inr (Some (tok_value u), q) \<and>
                       advance p2' = Inr (Some (tok_value u), q') \<and>
                       (sim_in q q' \<or> sim_end q q'))"
    by (auto simp: id_kinds_def)
  obtain r1 r2 where r: "r = (r1, r2)" by (cases r)
  show ?thesis
  proof (cases "tok_kind u \<in> set id_kinds")
    case True
    with a2 obtain q q' where "advance p2 = Inr (Some (tok_value u), q)"
      "advance p2' = Inr (Some (tok_value u), q')" "sim q q'" unfolding sim_def by blast
    with a q r c True show ?thesis unfolding parse_field_def by (simp add: rel_resI)
  next
    case False
    with a q r c s2 show ?thesis unfolding parse_field_def by (simp add: rel_resI)
  qed
qed

lemma parse_fields_finish:
  "parse_fields p =
     (case match_kind [LParen] p of Inl e \<Rightarrow> Inl e | Inr (_, p1) \<Rightarrow> finish (fields_loop [] p1))"
  by (simp add: parse_fields_def finish_def split: sum.splits prod.splits)

lemma fields_loop_sim:
  "sim_in p p' \<Longrightarrow> finish (fields_loop acc p) = finish (fields_loop acc p')"
proof (induction acc p arbitrary: p' rule: fields_loop.induct)
  case (1 acc p)
  from sim_in_cur [OF "1.prems"] obtain t where
    c: "cur_token p = Some t" "cur_token p' = Some t" and nr: "tok_kind t \<noteq> RParen"
    by blast
  show ?case
  proof (cases "tok_kind t = TypeId")
    case False
    with c nr show ?thesis
      by (simp add: fields_loop.simps [of acc p] fields_loop.simps [of acc p'] finish_def
          match_kind_def)
  next
    case True
    from parse_field_sim [OF "1.prems" c(1) True] obtain f p3 p3' where
      pf: "parse_field t p = Inr (f, p3)" "parse_field t p' = Inr (f, p3')" and s: "sim p3 p3'"
      unfolding rel_res_def by blast
    from s have "sim_in p3 p3' \<or> sim_end p3 p3'" by (simp add: sim_def)
    then show ?thesis
    proof
      assume "sim_end p3 p3'"
      from sim_end_cur [OF this] obtain r cm where
        e: "cur_token p3 = Some r" "tok_kind r = RParen" "cur_token p3' = Some cm"
           "tok_kind cm = Comma" "advance p3' = Inr (Some (tok_value cm), p3)"
        by blast
      have "fields_loop acc p = Inr (acc @ [f], p3)"
        using c True pf e by (simp add: fields_loop.simps [of acc p])
      moreover have "fields_loop acc p' = fields_loop (acc @ [f]) p3"
        using c True pf e by (simp add: fields_loop.simps [of acc p'])
      moreover have "fields_loop (acc @ [f]) p3 = Inr (acc @ [f], p3)"
        using e by (simp add: fields_loop.simps [of "acc @ [f]" p3])
      ultimately show ?thesis by simp
    next
      assume si: "sim_in p3 p3'"
      from sim_in_cur [OF this] obtain t3 q q' where
        c3: "cur_token p3 = Some t3" "cur_token p3' = Some t3" and nr3: "tok_kind t3 \<noteq> RParen" and
        adv: "advance p3 = Inr (Some (tok_value t3), q)" "advance p3' = Inr (Some (tok_value t3), q')" and
        nx: "sim_in q q' \<or> (sim_end q q' \<and> tok_kind t3 \<noteq> Comma)"
        by blast
      show ?thesis
      proof (cases "tok_kind t3 = Comma")
        case cm: True
        with nx have sq: "sim_in q q'" by blast
        have "fields_loop acc p = fields_loop (acc @ [f]) q"
          using c True pf c3 nr3 cm adv by (simp add: fields_loop.simps [of acc p])
        moreover have "fields_loop acc p' = fields_loop (acc @ [f]) q'"
          using c True pf c3 nr3 cm adv by (simp add: fields_loop.simps [of acc p'])
        moreover have "finish (fields_loop (acc @ [f]) q) = finish (fields_loop (acc @ [f]) q')"
          using "1.IH"(1) [OF c(1) True pf(1) refl c3(1) nr3 cm adv(1) refl sq] .
        ultimately show ?thesis by simp
      next
        case ncm: False
        have "fields_loop acc p = fields_loop (acc @ [f]) p3"
          using c True pf c3 nr3 ncm by (simp add: fields_loop.simps [of acc p])
        moreover have "fields_loop acc p' = fields_loop (acc @ [f]) p3'"
          using c True pf c3 nr3 ncm by (simp add: fields_loop.simps [of acc p'])
        moreover have "finish (fields_loop (acc @ [f]) p3) = finish (fields_loop (acc @ [f]) p3')"
          using "1.IH"(2) [OF c(1) True pf(1) refl c3(1) nr3 ncm si] .
        ultimately show ?thesis by simp
      qed
    qed
  qed
qed


lemma prepend_Inl: "prepend a (Inl e) = Inl e" by (simp add: prepend_def)




text \<open>
  Claim C3, as amended. When the type identifier of a field is followed by the optional
  marker and then the sequence marker, the parser consumes both and records the field with
  both flags set, with or without a field name after them. In the opposite order the
  sequence marker alone is consumed, the field is recorded with the sequence flag only, and
  the fields list is then rejected with a syntax error at the optional marker.
\<close>

theorem optional_then_sequence_sets_both_flags:
  "parse_optional_field_quantifier (st (Token Question q l1 # Token Asterisk a l2 # x # ts) e)
     = Inr ((True, True), st (x # ts) e) \<and>
   parse_field (Token TypeId ty l0)
       (st (Token TypeId ty l0 # Token Question q l1 # Token Asterisk a l2 # x # y # ts) e)
     = (if tok_kind x \<in> set id_kinds
        then Inr (Field ty (Some (tok_value x)) True True, st (y # ts) e)
        else Inr (Field ty None True True, st (x # y # ts) e)) \<and>
   fields_loop acc
       (st (Token TypeId ty l0 # Token Question q l1 # Token Asterisk a l2 # Token RParen rp l3 # ts) e)
     = Inr (acc @ [Field ty None True True], st (Token RParen rp l3 # ts) e) \<and>
   parse_optional_field_quantifier (st (Token Asterisk a l2 # Token Question q l1 # ts) e)
     = Inr ((True, False), st (Token Question q l1 # ts) e) \<and>
   finish (fields_loop acc
       (st (Token TypeId ty l0 # Token Asterisk a l2 # Token Question q l1 # ts) e))
     = Inl (ASDLSyntaxError (Unmatched [RParen] Question) l1)"
  by (simp add: parser_defs st_simps finish_def fields_loop.simps)

theorem optional_then_sequence_sets_both_flags_witness:
  "parse_fields (st [Token LParen ''('' 1, Token TypeId ''int'' 1, Token Question ''?'' 1,
                     Token Asterisk ''*'' 1, Token RParen '')'' 1, Token RBrace ''}'' 1] None)
     = Inr ([Field ''int'' None True True], st [Token RBrace ''}'' 1] None)"
  using optional_then_sequence_sets_both_flags
    [of "''?''" 1 "''*''" 1 "Token RParen '')'' 1" "[Token RBrace ''}'' 1]" None "''int''" 1
        "Token RBrace ''}'' 1" "[]" "'')''" 1]
  by (simp add: parse_fields_def match_kind_def advance_def st_simps)

text \<open>
  Claim C3 as stated fails for the order \<open>*?\<close>: the parser run on the tokens of
  \<open>module M { t = (int*? x) }\<close> raises a syntax error at the \<open>?\<close> token, and \<open>parse\<close>
  on the text itself ends with \<open>TypeError\<close>.
\<close>

theorem sequence_then_optional_is_rejected:
  "parse_tokens
     ([Token TypeId ''module'' 1, Token ConstructorId ''M'' 1, Token LBrace ''{'' 1,
       Token TypeId ''t'' 1, Token Equals ''='' 1, Token LParen ''('' 1, Token TypeId ''int'' 1,
       Token Asterisk ''*'' 1, Token Question ''?'' 1, Token TypeId ''x'' 1,
       Token RParen '')'' 1, Token RBrace ''}'' 1], None)
     = Inl (ASDLSyntaxError (Unmatched [RParen] Question) 1) \<and>
   parse ''module M { t = (int*? x) }'' = Inl TypeError"
proof
  show "parse_tokens
     ([Token TypeId ''module'' 1, Token ConstructorId ''M'' 1, Token LBrace ''{'' 1,
       Token TypeId ''t'' 1, Token Equals ''='' 1, Token LParen ''('' 1, Token TypeId ''int'' 1,
       Token Asterisk ''*'' 1, Token Question ''?'' 1, Token TypeId ''x'' 1,
       Token RParen '')'' 1, Token RBrace ''}'' 1], None)
     = Inl (ASDLSyntaxError (Unmatched [RParen] Question) 1)"
    by (rule outcome_Inl) code_simp
next
  show "parse ''module M { t = (int*? x) }'' = Inl TypeError"
    by (rule outcome_Inl) code_simp
qed

text \<open>
  Claim C5, as amended. A fields list with one comma in front of its closing parenthesis
  parses to the same result as the list without that comma, whatever the tokens of the list
  are, provided the list is not empty and does not already end with a comma. A second comma
  at a separator position is a syntax error at that comma, and the comma between a named
  field and the next field may be left out.
\<close>

theorem trailing_comma_ignored:
  "(pre \<noteq> [] \<and> (\<forall>t\<in>set pre. tok_kind t \<noteq> RParen) \<and> tok_kind (last pre) \<noteq> Comma \<longrightarrow>
      parse_fields (st (Token LParen lp l0 # pre @ Token Comma c l1 # Token RParen rp l2 # rest) e)
    = parse_fields (st (Token LParen lp l0 # pre @ Token RParen rp l2 # rest) e)) \<and>
   finish (fields_loop acc
       (st (Token TypeId ty l3 # Token Comma c1 l4 # Token Comma c2 l5 # ts) e))
     = Inl (ASDLSyntaxError (Unmatched [RParen] Comma) l5) \<and>
   fields_loop acc
       (st (Token TypeId ty l3 # Token TypeId nm l4 # Token Comma c1 l5 # Token TypeId ty2 l6 # ts) e)
     = fields_loop acc
       (st (Token TypeId ty l3 # Token TypeId nm l4 # Token TypeId ty2 l6 # ts) e)"
proof (intro conjI impI)
  assume h: "pre \<noteq> [] \<and> (\<forall>t\<in>set pre. tok_kind t \<noteq> RParen) \<and> tok_kind (last pre) \<noteq> Comma"
  then obtain t toks where pre: "pre = t # toks" by (cases pre) auto
  have s: "sim_in (st (t # toks @ Token RParen rp l2 # rest) e)
                  (st (t # toks @ Token Comma c l1 # Token RParen rp l2 # rest) e)"
    using sim_inI [of "Token RParen rp l2" "Token Comma c l1" t toks rest e] h pre
    by simp
  have a: "match_kind [LParen] (st (Token LParen lp l0 # t # toks @ x) e) = Inr (lp, st (t # toks @ x) e)"
    for x by (simp add: match_kind_def advance_def st_simps)
  show "parse_fields (st (Token LParen lp l0 # pre @ Token Comma c l1 # Token RParen rp l2 # rest) e)
    = parse_fields (st (Token LParen lp l0 # pre @ Token RParen rp l2 # rest) e)"
    unfolding parse_fields_finish pre using a fields_loop_sim [OF s, of "[]"] by simp
next
  show "finish (fields_loop acc
       (st (Token TypeId ty l3 # Token Comma c1 l4 # Token Comma c2 l5 # ts) e))
     = Inl (ASDLSyntaxError (Unmatched [RParen] Comma) l5)"
    by (simp add: parser_defs st_simps finish_def fields_loop.simps)
next
  have "fields_loop acc
       (st (Token TypeId ty l3 # Token TypeId nm l4 # Token Comma c1 l5 # Token TypeId ty2 l6 # ts) e)
     = fields_loop (acc @ [Field ty (Some nm) False False]) (st (Token TypeId ty2 l6 # ts) e)"
    by (subst fields_loop.simps) (simp add: parser_defs st_simps)
  moreover have "fields_loop acc
       (st (Token TypeId ty l3 # Token TypeId nm l4 # Token TypeId ty2 l6 # ts) e)
     = fields_loop (acc @ [Field ty (Some nm) False False]) (st (Token TypeId ty2 l6 # ts) e)"
    by (subst fields_loop.simps) (simp add: parser_defs st_simps)
  ultimately show "fields_loop acc
       (st (Token TypeId ty l3 # Token TypeId nm l4 # Token Comma c1 l5 # Token TypeId ty2 l6 # ts) e)
     = fields_loop acc
       (st (Token TypeId ty l3 # Token TypeId nm l4 # Token TypeId ty2 l6 # ts) e)"
    by simp
qed

theorem trailing_comma_ignored_witness:
  "parse_fields (st (Token LParen ''('' 1 # [Token TypeId ''a'' 1, Token Comma '','' 1, Token TypeId ''b'' 1]
        @ Token Comma '','' 1 # Token RParen '')'' 1 # [Token RBrace ''}'' 1]) None)
    = Inr ([Field ''a'' None False False, Field ''b'' None False False], st [Token RBrace ''}'' 1] None)"
proof -
  have h: "[Token TypeId ''a'' 1, Token Comma '','' 1, Token TypeId ''b'' 1] \<noteq> [] \<and>
   (\<forall>t\<in>set [Token TypeId ''a'' 1, Token Comma '','' 1, Token TypeId ''b'' 1]. tok_kind t \<noteq> RParen) \<and>
   tok_kind (last [Token TypeId ''a'' 1, Token Comma '','' 1, Token TypeId ''b'' 1]) \<noteq> Comma"
    by simp
  have v: "parse_fields (st (Token LParen ''('' 1 # [Token TypeId ''a'' 1, Token Comma '','' 1, Token TypeId ''b'' 1]
        @ Token RParen '')'' 1 # [Token RBrace ''}'' 1]) None)
    = Inr ([Field ''a'' None False False, Field ''b'' None False False], st [Token RBrace ''}'' 1] None)"
    by (simp add: parser_defs st_simps fields_loop.simps)
  from trailing_comma_ignored
    [of "[Token TypeId ''a'' 1, Token Comma '','' 1, Token TypeId ''b'' 1]"
        "''(''" 1 "'',''" 1 "'')''" 1 "[Token RBrace ''}'' 1]" None]
    h
  have "parse_fields (st (Token LParen ''('' 1 # [Token TypeId ''a'' 1, Token Comma '','' 1, Token TypeId ''b'' 1]
        @ Token Comma '','' 1 # Token RParen '')'' 1 # [Token RBrace ''}'' 1]) None)
    = parse_fields (st (Token LParen ''('' 1 # [Token TypeId ''a'' 1, Token Comma '','' 1, Token TypeId ''b'' 1]
        @ Token RParen '')'' 1 # [Token RBrace ''}'' 1]) None)"
    by blast
  then show ?thesis using v by (rule trans)
qed

text \<open>
  Claim C5 as stated says that no comma is permitted immediately in front of the final
  closing parenthesis. The parser run on the tokens of \<open>module M { t = (a, b,) }\<close> accepts
  that comma and returns the product of the two fields.
\<close>

theorem comma_before_closing_parenthesis_accepted:
  "parse_tokens
     ([Token TypeId ''module'' 1, Token ConstructorId ''M'' 1, Token LBrace ''{'' 1,
       Token TypeId ''t'' 1, Token Equals ''='' 1, Token LParen ''('' 1, Token TypeId ''a'' 1,
       Token Comma '','' 1, Token TypeId ''b'' 1, Token Comma '','' 1,
       Token RParen '')'' 1, Token RBrace ''}'' 1], None)
     = Inr (mk_Module ''M''
         [Type ''t'' (Product [Field ''a'' None False False, Field ''b'' None False False] [])])"
  by (rule outcome_Inr) code_simp






lemma fold_types_other:
  "n \<notin> t_name ` set ds \<Longrightarrow> fold (\<lambda>t m. m(t_name t \<mapsto> t_value t)) ds m n = m n"
  by (induction ds arbitrary: m) auto

lemma mk_types_last_wins:
  "n \<notin> t_name ` set ds' \<Longrightarrow> mk_types (ds @ Type n v # ds') n = Some v"
  by (simp add: mk_types_def fold_types_other)

text \<open>
  Claim C10. The claim says that a source with two definitions of one name parses, keeps both
  definitions in order, maps the name to the value of the last one and passes \<open>check\<close>.
  \<open>parse\<close> ends with \<open>TypeError\<close> on \<open>module M { a = X a = Y }\<close>. The parser run on the
  tokens the text stands for returns both definitions in order; in that module the name is
  mapped to the value of the second definition and \<open>check\<close> returns true.
\<close>

theorem parse_duplicate_definition_raises_TypeError:
  "parse ''module M { a = X a = Y }'' = Inl TypeError \<and>
   parse_tokens
     ([Token TypeId ''module'' 1, Token ConstructorId ''M'' 1, Token LBrace ''{'' 1,
       Token TypeId ''a'' 1, Token Equals ''='' 1, Token ConstructorId ''X'' 1,
       Token TypeId ''a'' 1, Token Equals ''='' 1, Token ConstructorId ''Y'' 1,
       Token RBrace ''}'' 1], None)
     = Inr (mk_Module ''M'' [Type ''a'' (Sum [Constructor ''X'' []] []),
                             Type ''a'' (Sum [Constructor ''Y'' []] [])]) \<and>
   types (mk_Module ''M'' [Type ''a'' (Sum [Constructor ''X'' []] []),
                           Type ''a'' (Sum [Constructor ''Y'' []] [])]) ''a''
     = Some (Sum [Constructor ''Y'' []] []) \<and>
   check (mk_Module ''M'' [Type ''a'' (Sum [Constructor ''X'' []] []),
                           Type ''a'' (Sum [Constructor ''Y'' []] [])])"
proof (intro conjI)
  show "parse ''module M { a = X a = Y }'' = Inl TypeError"
    by (rule outcome_Inl) code_simp
next
  show "parse_tokens
     ([Token TypeId ''module'' 1, Token ConstructorId ''M'' 1, Token LBrace ''{'' 1,
       Token TypeId ''a'' 1, Token Equals ''='' 1, Token ConstructorId ''X'' 1,
       Token TypeId ''a'' 1, Token Equals ''='' 1, Token ConstructorId ''Y'' 1,
       Token RBrace ''}'' 1], None)
     = Inr (mk_Module ''M'' [Type ''a'' (Sum [Constructor ''X'' []] []),
                             Type ''a'' (Sum [Constructor ''Y'' []] [])])"
    by (rule outcome_Inr) code_simp
next
  show "types (mk_Module ''M'' [Type ''a'' (Sum [Constructor ''X'' []] []),
                           Type ''a'' (Sum [Constructor ''Y'' []] [])]) ''a''
     = Some (Sum [Constructor ''Y'' []] [])"
    by (simp add: mk_Module_def mk_types_def)
next
  show "check (mk_Module ''M'' [Type ''a'' (Sum [Constructor ''X'' []] []),
                           Type ''a'' (Sum [Constructor ''Y'' []] [])])"
    by (simp add: check_def visitModule_def visitType_def visitSum_def visitConstructor_def
      Check_init_def mk_Module_def mk_types_def)
qed

end
